theory Spec2Isabelle
  imports Main "HOL-Library.AList"
begin

section \<open>JavaScript values, objects and the heap\<close>

text \<open>
  The functions of \<^verbatim>\<open>src/utils.js\<close> work on JavaScript values: primitives, and references
  to arrays and objects that are cloned, mutated and compared by identity. The model keeps
  an explicit heap, a list of objects addressed by position: allocation appends, so an
  address that is at least the length of a heap is fresh for it.

  What is modelled of the language: own enumerable data properties of objects and arrays,
  the \<^verbatim>\<open>length\<close> and the elements of arrays and of strings, truthiness, and the two
  exceptions the code can meet (\<^verbatim>\<open>TypeError\<close>, \<^verbatim>\<open>RangeError\<close>). Not modelled: function
  values, accessors and inherited properties (so \<^verbatim>\<open>constructor\<close> and \<^verbatim>\<open>instanceof\<close> are
  read from the prototype tag of an object, and \<^verbatim>\<open>__proto__\<close> is a property like any
  other), non-integer numbers, and the ascending order in which \<^verbatim>\<open>Object.keys\<close> lists
  integer keys (keys are listed in the order of the property list). Number keys are
  natural numbers small enough to be printed in decimal by \<^verbatim>\<open>ToString\<close>. The runtime has
  \<^verbatim>\<open>Symbol.for\<close>, and the module is in strict mode.

  A call returns a value and the heap it leaves, or raises an error (the heap is then
  dropped); a call that does not return is \<open>None\<close>.
\<close>

type_synonym addr = nat

datatype jsval =
    VUndefined
  | VNull
  | VBool bool
  | VNum int
  | VNaN
  | VStr string
  | VSym string
  | VRef addr

text \<open>An element of a path: a number or a string; \<open>KUndefined\<close> is what \<^verbatim>\<open>path[index]\<close>
  reads past the end of the path.\<close>

datatype key = KNum nat | KStr string | KUndefined

text \<open>A property name after \<^verbatim>\<open>ToPropertyKey\<close>: the number \<open>n\<close> and the string of its
  decimal digits name the same property, \<open>PIdx n\<close>.\<close>

datatype pname = PIdx nat | PName string

datatype proto =
    ObjectProto
  | NullProto
  | DateProto
  | RegExpProto
  | NativeProto string
  | UserProto nat

text \<open>An array has its elements (a hole reads as \<^verbatim>\<open>undefined\<close>) and the properties that
  are not elements; any other object has a prototype tag and its properties.\<close>

datatype obj =
    Arr "jsval list" "(pname \<times> jsval) list"
  | Obj proto "(pname \<times> jsval) list"

type_synonym heap = "obj list"

datatype error = TypeError | RangeError | NotModelled

type_synonym 'a res = "error + heap \<times> 'a"

definition alloc :: "heap \<Rightarrow> obj \<Rightarrow> heap \<times> jsval" where
  "alloc h ob = (h @ [ob], VRef (length h))"

definition truthy :: "jsval \<Rightarrow> bool" where
  "truthy v =
     (case v of
        VUndefined \<Rightarrow> False
      | VNull \<Rightarrow> False
      | VBool b \<Rightarrow> b
      | VNum n \<Rightarrow> n \<noteq> 0
      | VNaN \<Rightarrow> False
      | VStr s \<Rightarrow> s \<noteq> []
      | VSym s \<Rightarrow> True
      | VRef a \<Rightarrow> True)"

subsection \<open>Property names\<close>

definition digit_val :: "char \<Rightarrow> nat option" where
  "digit_val c =
     map_of [(CHR ''0'', 0), (CHR ''1'', 1), (CHR ''2'', 2), (CHR ''3'', 3), (CHR ''4'', 4),
             (CHR ''5'', 5), (CHR ''6'', 6), (CHR ''7'', 7), (CHR ''8'', 8), (CHR ''9'', 9)] c"

fun digits_val :: "string \<Rightarrow> nat \<Rightarrow> nat option" where
  "digits_val [] acc = Some acc"
| "digits_val (c # cs) acc =
     (case digit_val c of None \<Rightarrow> None | Some d \<Rightarrow> digits_val cs (10 * acc + d))"

text \<open>The natural number a string prints, when the string is its canonical decimal form
  (no sign, no leading zero).\<close>

definition canonical_index :: "string \<Rightarrow> nat option" where
  "canonical_index s =
     (if s = [] then None
      else if hd s = CHR ''0'' \<and> tl s \<noteq> [] then None
      else digits_val s 0)"

definition toPropertyKey :: "key \<Rightarrow> pname" where
  "toPropertyKey k =
     (case k of
        KNum n \<Rightarrow> PIdx n
      | KStr s \<Rightarrow> (case canonical_index s of Some n \<Rightarrow> PIdx n | None \<Rightarrow> PName s)
      | KUndefined \<Rightarrow> PName ''undefined'')"

text \<open>\<^verbatim>\<open>typeof key === 'number'\<close>\<close>

definition isNumberKey :: "key \<Rightarrow> bool" where
  "isNumberKey k = (case k of KNum n \<Rightarrow> True | _ \<Rightarrow> False)"

text \<open>\<^verbatim>\<open>path[index]\<close>\<close>

definition path_at :: "key list \<Rightarrow> nat \<Rightarrow> key" where
  "path_at path i = (if i < length path then path ! i else KUndefined)"

subsection \<open>Reading and writing properties\<close>

definition alist_get :: "(pname \<times> jsval) list \<Rightarrow> pname \<Rightarrow> jsval" where
  "alist_get ps q = (case map_of ps q of None \<Rightarrow> VUndefined | Some v \<Rightarrow> v)"


text \<open>The element of an array at an index; past the end it is \<^verbatim>\<open>undefined\<close>.\<close>

definition elem_at :: "jsval list \<Rightarrow> nat \<Rightarrow> jsval" where
  "elem_at xs n = (if n < length xs then xs ! n else VUndefined)"

definition own_get :: "obj \<Rightarrow> pname \<Rightarrow> jsval" where
  "own_get ob q =
     (case ob of
        Obj p ps \<Rightarrow> alist_get ps q
      | Arr xs ps \<Rightarrow>
          (case q of
             PIdx n \<Rightarrow>
               if n < 4294967295 then elem_at xs n
               else alist_get ps q
           | PName s \<Rightarrow>
               if s = ''length'' then VNum (int (length xs)) else alist_get ps q))"

text \<open>Properties of a primitive value: a string has its length and its characters.\<close>

definition prim_get :: "jsval \<Rightarrow> pname \<Rightarrow> jsval" where
  "prim_get v q =
     (case v of
        VStr s \<Rightarrow>
          (case q of
             PIdx n \<Rightarrow> if n < length s then VStr [s ! n] else VUndefined
           | PName t \<Rightarrow> if t = ''length'' then VNum (int (length s)) else VUndefined)
      | _ \<Rightarrow> VUndefined)"

text \<open>\<^verbatim>\<open>v[q]\<close> for a value that is neither \<^verbatim>\<open>undefined\<close> nor \<^verbatim>\<open>null\<close>.\<close>

definition read_prop :: "heap \<Rightarrow> jsval \<Rightarrow> pname \<Rightarrow> jsval" where
  "read_prop h v q = (case v of VRef a \<Rightarrow> own_get (h ! a) q | _ \<Rightarrow> prim_get v q)"

definition isNullish :: "jsval \<Rightarrow> bool" where
  "isNullish v = (v = VUndefined \<or> v = VNull)"

text \<open>\<^verbatim>\<open>v[q]\<close>: a \<^verbatim>\<open>TypeError\<close> on \<^verbatim>\<open>undefined\<close> and \<^verbatim>\<open>null\<close>.\<close>

definition get_prop :: "heap \<Rightarrow> jsval \<Rightarrow> pname \<Rightarrow> error + jsval" where
  "get_prop h v q = (if isNullish v then Inl TypeError else Inr (read_prop h v q))"

text \<open>Writing an element of an array at or past its length extends the array; the
  positions in between are holes.\<close>

definition set_elem :: "jsval list \<Rightarrow> nat \<Rightarrow> jsval \<Rightarrow> jsval list" where
  "set_elem xs n v =
     (if n < length xs then xs[n := v]
      else xs @ replicate (n - length xs) VUndefined @ [v])"

text \<open>Writing \<^verbatim>\<open>length\<close> of an array: a number that is a valid length truncates or
  extends the array, any other number and \<^verbatim>\<open>undefined\<close> raise \<^verbatim>\<open>RangeError\<close>. The conversion
  \<^verbatim>\<open>ToNumber\<close> of the other values is not modelled.\<close>

definition set_length :: "jsval list \<Rightarrow> jsval \<Rightarrow> error + jsval list" where
  "set_length xs v =
     (case v of
        VNum m \<Rightarrow>
          if 0 \<le> m \<and> m \<le> 4294967295
          then Inr (take (nat m) xs @ replicate (nat m - length xs) VUndefined)
          else Inl RangeError
      | VUndefined \<Rightarrow> Inl RangeError
      | VNaN \<Rightarrow> Inl RangeError
      | _ \<Rightarrow> Inl NotModelled)"

definition own_set :: "obj \<Rightarrow> pname \<Rightarrow> jsval \<Rightarrow> error + obj" where
  "own_set ob q v =
     (case ob of
        Obj p ps \<Rightarrow> Inr (Obj p (AList.update q v ps))
      | Arr xs ps \<Rightarrow>
          (case q of
             PIdx n \<Rightarrow>
               if n < 4294967295 then Inr (Arr (set_elem xs n v) ps)
               else Inr (Arr xs (AList.update q v ps))
           | PName s \<Rightarrow>
               if s = ''length''
               then (case set_length xs v of Inl e \<Rightarrow> Inl e | Inr ys \<Rightarrow> Inr (Arr ys ps))
               else Inr (Arr xs (AList.update q v ps))))"

text \<open>\<^verbatim>\<open>target[q] = v\<close> in strict mode: a \<^verbatim>\<open>TypeError\<close> on anything but an object.\<close>

definition set_prop :: "heap \<Rightarrow> jsval \<Rightarrow> pname \<Rightarrow> jsval \<Rightarrow> error + heap" where
  "set_prop h target q v =
     (case target of
        VRef a \<Rightarrow> (case own_set (h ! a) q v of Inl e \<Rightarrow> Inl e | Inr ob \<Rightarrow> Inr (h[a := ob]))
      | _ \<Rightarrow> Inl TypeError)"

text \<open>\<^verbatim>\<open>Object.keys(v)\<close>: a \<^verbatim>\<open>TypeError\<close> on \<^verbatim>\<open>undefined\<close> and \<^verbatim>\<open>null\<close>.\<close>

definition object_keys :: "heap \<Rightarrow> jsval \<Rightarrow> error + pname list" where
  "object_keys h v =
     (case v of
        VUndefined \<Rightarrow> Inl TypeError
      | VNull \<Rightarrow> Inl TypeError
      | VStr s \<Rightarrow> Inr (map PIdx [0 ..< length s])
      | VRef a \<Rightarrow>
          (case h ! a of
             Obj p ps \<Rightarrow> Inr (map fst ps)
           | Arr xs ps \<Rightarrow> Inr (map PIdx [0 ..< length xs] @ map fst ps))
      | _ \<Rightarrow> Inr [])"

section \<open>The functions of \<^verbatim>\<open>src/utils.js\<close>\<close>

text \<open>\<^verbatim>\<open>Symbol.for('react.element')\<close>\<close>

definition REACT_ELEMENT_TYPE :: jsval where
  "REACT_ELEMENT_TYPE = VSym ''react.element''"

definition isArray :: "heap \<Rightarrow> jsval \<Rightarrow> bool" where
  "isArray h v =
     (case v of
        VRef a \<Rightarrow> (case h ! a of Arr xs ps \<Rightarrow> True | Obj p ps \<Rightarrow> False)
      | _ \<Rightarrow> False)"

text \<open>\<^verbatim>\<open>typeof v === 'object'\<close>\<close>

definition typeofObject :: "jsval \<Rightarrow> bool" where
  "typeofObject v = (case v of VNull \<Rightarrow> True | VRef a \<Rightarrow> True | _ \<Rightarrow> False)"

text \<open>\<^verbatim>\<open>v instanceof Date\<close>, \<^verbatim>\<open>v instanceof RegExp\<close>\<close>

definition instanceofDate :: "heap \<Rightarrow> jsval \<Rightarrow> bool" where
  "instanceofDate h v =
     (case v of
        VRef a \<Rightarrow> (case h ! a of Obj p ps \<Rightarrow> p = DateProto | Arr xs ps \<Rightarrow> False)
      | _ \<Rightarrow> False)"

definition instanceofRegExp :: "heap \<Rightarrow> jsval \<Rightarrow> bool" where
  "instanceofRegExp h v =
     (case v of
        VRef a \<Rightarrow> (case h ! a of Obj p ps \<Rightarrow> p = RegExpProto | Arr xs ps \<Rightarrow> False)
      | _ \<Rightarrow> False)"

definition isCloneable :: "heap \<Rightarrow> jsval \<Rightarrow> bool" where
  "isCloneable h object =
     (truthy object \<and>
      typeofObject object \<and>
      \<not> (instanceofDate h object \<or> instanceofRegExp h object) \<and>
      read_prop h object (PName ''$$typeof'') \<noteq> REACT_ELEMENT_TYPE)"

text \<open>What \<^verbatim>\<open>object.constructor\<close> is: \<^verbatim>\<open>Object\<close>, another native function, a function
  defined by a program, or nothing (an object without prototype).\<close>

datatype ctor = CtorObject | CtorNative | CtorUser | CtorNone

definition constructorOf :: "heap \<Rightarrow> jsval \<Rightarrow> error + ctor" where
  "constructorOf h v =
     (case v of
        VUndefined \<Rightarrow> Inl TypeError
      | VNull \<Rightarrow> Inl TypeError
      | VRef a \<Rightarrow>
          (case h ! a of
             Arr xs ps \<Rightarrow> Inr CtorNative
           | Obj p ps \<Rightarrow>
               (case p of
                  ObjectProto \<Rightarrow> Inr CtorObject
                | NullProto \<Rightarrow> Inr CtorNone
                | UserProto n \<Rightarrow> Inr CtorUser
                | _ \<Rightarrow> Inr CtorNative))
      | _ \<Rightarrow> Inr CtorNative)"

definition elems_of :: "heap \<Rightarrow> jsval \<Rightarrow> jsval list" where
  "elems_of h v =
     (case v of
        VRef a \<Rightarrow> (case h ! a of Arr xs ps \<Rightarrow> xs | Obj p ps \<Rightarrow> [])
      | _ \<Rightarrow> [])"

definition props_of :: "heap \<Rightarrow> jsval \<Rightarrow> (pname \<times> jsval) list" where
  "props_of h v =
     (case v of
        VRef a \<Rightarrow> (case h ! a of Arr xs ps \<Rightarrow> ps | Obj p ps \<Rightarrow> ps)
      | _ \<Rightarrow> [])"

definition proto_of :: "heap \<Rightarrow> jsval \<Rightarrow> proto" where
  "proto_of h v =
     (case v of
        VRef a \<Rightarrow> (case h ! a of Arr xs ps \<Rightarrow> NativeProto ''Array'' | Obj p ps \<Rightarrow> p)
      | _ \<Rightarrow> NativeProto ''primitive'')"

text \<open>\<^verbatim>\<open>Object.keys(object).reduce((clone, key) => { clone[key] = object[key]; return clone; }, start)\<close>
  on the property list of the clone.\<close>

definition copy_props :: "(pname \<times> jsval) list \<Rightarrow> (pname \<times> jsval) list" where
  "copy_props ps = fold (\<lambda>q clone. AList.update q (alist_get ps q) clone) (map fst ps) []"

definition getShallowClone :: "heap \<Rightarrow> jsval \<Rightarrow> jsval res" where
  "getShallowClone h object =
     (if isArray h object then Inr (alloc h (Arr (elems_of h object) []))
      else
        (case constructorOf h object of
           Inl e \<Rightarrow> Inl e
         | Inr c \<Rightarrow>
             if c = CtorObject then Inr (alloc h (Obj ObjectProto (props_of h object)))
             else if c = CtorNative then Inr (alloc h (Obj ObjectProto []))
             else Inr (alloc h (Obj (proto_of h object) (copy_props (props_of h object))))))"

definition getNewEmptyChild :: "heap \<Rightarrow> key \<Rightarrow> heap \<times> jsval" where
  "getNewEmptyChild h k = alloc h (if isNumberKey k then Arr [] [] else Obj ObjectProto [])"

definition getNewEmptyObject :: "heap \<Rightarrow> jsval \<Rightarrow> heap \<times> jsval" where
  "getNewEmptyObject h object = alloc h (if isArray h object then Arr [] [] else Obj ObjectProto [])"

definition cloneIfPossible :: "heap \<Rightarrow> jsval \<Rightarrow> jsval res" where
  "cloneIfPossible h object =
     (if isCloneable h object then getShallowClone h object else Inr (h, object))"

definition getNewChildClone :: "heap \<Rightarrow> jsval \<Rightarrow> key \<Rightarrow> jsval res" where
  "getNewChildClone h object nextKey =
     (case getNewEmptyChild h nextKey of
        (h1, emptyChild) \<Rightarrow>
          if \<not> isCloneable h1 object then Inr (h1, emptyChild)
          else if isArray h1 object = isArray h1 emptyChild then cloneIfPossible h1 object
          else Inr (h1, emptyChild))"

text \<open>The callback \<^verbatim>\<open>onMatch(object, key)\<close> may read and write the heap.\<close>

type_synonym callback = "heap \<Rightarrow> jsval \<Rightarrow> key \<Rightarrow> jsval res"

text \<open>The recursion of \<^verbatim>\<open>onMatchAtPath\<close> ends when \<^verbatim>\<open>index + 1\<close> meets the length of the
  path, which it never does from an index at or past the end (an empty path, for one). The
  fuel bounds the depth of the recursion, and \<open>None\<close> is a call that does not return.\<close>

fun onMatchAtPath ::
  "nat \<Rightarrow> key list \<Rightarrow> heap \<Rightarrow> jsval \<Rightarrow> callback \<Rightarrow> bool \<Rightarrow> jsval \<Rightarrow> nat \<Rightarrow> jsval res option"
where
  "onMatchAtPath 0 path h object onMatch shouldClone noMatchValue index = None"
| "onMatchAtPath (Suc fuel) path h object onMatch shouldClone noMatchValue index =
     (let key = path_at path index;
          nextIndex = index + 1
      in
        if nextIndex = length path then
          (if truthy object \<or> shouldClone then
             (case onMatch h object key of
                Inl e \<Rightarrow> Some (Inl e)
              | Inr (h1, result) \<Rightarrow> Some (Inr (h1, if shouldClone then object else result)))
           else Some (Inr (h, if shouldClone then object else noMatchValue)))
        else if shouldClone then
          (case get_prop h object (toPropertyKey key) of
             Inl e \<Rightarrow> Some (Inl e)
           | Inr child \<Rightarrow>
               (case getNewChildClone h child (path_at path nextIndex) of
                  Inl e \<Rightarrow> Some (Inl e)
                | Inr (h1, childClone) \<Rightarrow>
                    (case onMatchAtPath fuel path h1 childClone onMatch shouldClone noMatchValue nextIndex of
                       None \<Rightarrow> None
                     | Some (Inl e) \<Rightarrow> Some (Inl e)
                     | Some (Inr (h2, r)) \<Rightarrow>
                         (case set_prop h2 object (toPropertyKey key) r of
                            Inl e \<Rightarrow> Some (Inl e)
                          | Inr h3 \<Rightarrow> Some (Inr (h3, object))))))
        else if truthy object \<and> truthy (read_prop h object (toPropertyKey key)) then
          onMatchAtPath fuel path h (read_prop h object (toPropertyKey key))
            onMatch shouldClone noMatchValue nextIndex
        else Some (Inr (h, noMatchValue)))"

text \<open>\<^verbatim>\<open>array.map(f)\<close> for an \<open>f\<close> that may allocate, and \<^verbatim>\<open>keys.reduce\<close> for a callback
  that writes into a clone: the heap is threaded from left to right.\<close>

fun map_res :: "(heap \<Rightarrow> jsval \<Rightarrow> jsval res) \<Rightarrow> jsval list \<Rightarrow> heap \<Rightarrow> (jsval list) res" where
  "map_res f [] h = Inr (h, [])"
| "map_res f (x # xs) h =
     (case f h x of
        Inl e \<Rightarrow> Inl e
      | Inr (h1, y) \<Rightarrow>
          (case map_res f xs h1 of Inl e \<Rightarrow> Inl e | Inr (h2, ys) \<Rightarrow> Inr (h2, y # ys)))"

fun reduce_res :: "(heap \<Rightarrow> pname \<Rightarrow> (error + heap) option) \<Rightarrow> pname list \<Rightarrow> heap \<Rightarrow> (error + heap) option" where
  "reduce_res f [] h = Some (Inr h)"
| "reduce_res f (q # qs) h =
     (case f h q of
        None \<Rightarrow> None
      | Some (Inl e) \<Rightarrow> Some (Inl e)
      | Some (Inr h1) \<Rightarrow> reduce_res f qs h1)"

text \<open>The inner callback of \<^verbatim>\<open>getDeeplyMergedObject\<close>:
  \<^verbatim>\<open>clone[key] = cloneIfPossible(object1[key])\<close>.\<close>

definition copyClonedKey :: "jsval \<Rightarrow> jsval \<Rightarrow> heap \<Rightarrow> pname \<Rightarrow> (error + heap) option" where
  "copyClonedKey object1 clone h q =
     (case get_prop h object1 q of
        Inl e \<Rightarrow> Some (Inl e)
      | Inr v \<Rightarrow>
          (case cloneIfPossible h v of
             Inl e \<Rightarrow> Some (Inl e)
           | Inr (h1, c) \<Rightarrow> Some (set_prop h1 clone q c)))"

text \<open>The recursion of \<^verbatim>\<open>getDeeplyMergedObject\<close> follows the references of
  \<^verbatim>\<open>object2\<close>, which may form a cycle: the fuel bounds its depth.\<close>

fun getDeeplyMergedObject :: "nat \<Rightarrow> heap \<Rightarrow> jsval \<Rightarrow> jsval \<Rightarrow> jsval res option" where
  "getDeeplyMergedObject 0 h object1 object2 = None"
| "getDeeplyMergedObject (Suc fuel) h object1 object2 =
     (let isObject1Array = isArray h object1 in
        if isObject1Array \<noteq> isArray h object2 then Some (cloneIfPossible h object2)
        else if isObject1Array then
          (case map_res cloneIfPossible (elems_of h object2) h of
             Inl e \<Rightarrow> Some (Inl e)
           | Inr (h1, ys) \<Rightarrow> Some (Inr (alloc h1 (Arr (elems_of h object1 @ ys) []))))
        else
          (case object_keys h object2 of
             Inl e \<Rightarrow> Some (Inl e)
           | Inr keys2 \<Rightarrow>
               (case object_keys h object1 of
                  Inl e \<Rightarrow> Some (Inl e)
                | Inr keys1 \<Rightarrow>
                    (case alloc h (Obj ObjectProto []) of
                       (h0, clone) \<Rightarrow>
                         (case reduce_res (copyClonedKey object1 clone) keys1 h0 of
                            None \<Rightarrow> None
                          | Some (Inl e) \<Rightarrow> Some (Inl e)
                          | Some (Inr h1) \<Rightarrow>
                              (case reduce_res
                                      (\<lambda>h q.
                                         (case get_prop h object2 q of
                                            Inl e \<Rightarrow> Some (Inl e)
                                          | Inr v2 \<Rightarrow>
                                              if isCloneable h v2 then
                                                (case get_prop h object1 q of
                                                   Inl e \<Rightarrow> Some (Inl e)
                                                 | Inr v1 \<Rightarrow>
                                                     (case getDeeplyMergedObject fuel h v1 v2 of
                                                        None \<Rightarrow> None
                                                      | Some (Inl e) \<Rightarrow> Some (Inl e)
                                                      | Some (Inr (h2, m)) \<Rightarrow> Some (set_prop h2 clone q m)))
                                              else Some (set_prop h clone q v2)))
                                      keys2 h1 of
                                 None \<Rightarrow> None
                               | Some (Inl e) \<Rightarrow> Some (Inl e)
                               | Some (Inr h2) \<Rightarrow> Some (Inr (h2, clone))))))))"

text \<open>The paths of the model are arrays of keys, which \<^verbatim>\<open>getParsedPath\<close> returns as they
  are; the parser of path strings is outside \<^verbatim>\<open>src/utils.js\<close>.\<close>

definition getParsedPath :: "key list \<Rightarrow> key list" where
  "getParsedPath path = path"

text \<open>\<^verbatim>\<open>(ref, key) => ref[key]\<close>\<close>

definition getCallback :: callback where
  "getCallback h ref k =
     (case get_prop h ref (toPropertyKey k) of Inl e \<Rightarrow> Inl e | Inr v \<Rightarrow> Inr (h, v))"

definition getNestedProperty :: "nat \<Rightarrow> key list \<Rightarrow> heap \<Rightarrow> jsval \<Rightarrow> jsval res option" where
  "getNestedProperty fuel path h object =
     (let parsedPath = getParsedPath path in
        if length parsedPath = 1 then
          Some (if truthy object then getCallback h object (path_at parsedPath 0)
                else Inr (h, VUndefined))
        else onMatchAtPath fuel parsedPath h object getCallback False VUndefined 0)"

definition getDeepClone :: "nat \<Rightarrow> key list \<Rightarrow> heap \<Rightarrow> jsval \<Rightarrow> callback \<Rightarrow> jsval res option" where
  "getDeepClone fuel path h object onMatch =
     (let parsedPath = getParsedPath path in
        (case (if isCloneable h object then getShallowClone h object
               else Inr (getNewEmptyChild h (path_at parsedPath 0))) of
           Inl e \<Rightarrow> Some (Inl e)
         | Inr (h1, topLevelClone) \<Rightarrow>
             if length parsedPath = 1 then
               (case onMatch h1 topLevelClone (path_at parsedPath 0) of
                  Inl e \<Rightarrow> Some (Inl e)
                | Inr (h2, r) \<Rightarrow> Some (Inr (h2, topLevelClone)))
             else onMatchAtPath fuel parsedPath h1 topLevelClone onMatch True VUndefined 0))"

text \<open>\<^verbatim>\<open>(ref, key) => !!ref && ref[key] !== void 0\<close>\<close>

definition hasCallback :: callback where
  "hasCallback h ref k =
     (if truthy ref then
        (case get_prop h ref (toPropertyKey k) of
           Inl e \<Rightarrow> Inl e
         | Inr v \<Rightarrow> Inr (h, VBool (v \<noteq> VUndefined)))
      else Inr (h, VBool False))"

definition hasNestedProperty :: "nat \<Rightarrow> key list \<Rightarrow> heap \<Rightarrow> jsval \<Rightarrow> jsval res option" where
  "hasNestedProperty fuel path h object =
     (let parsedPath = getParsedPath path in
        if length parsedPath = 1 then
          Some (if truthy object then
                  (case get_prop h object (toPropertyKey (path_at parsedPath 0)) of
                     Inl e \<Rightarrow> Inl e
                   | Inr v \<Rightarrow> Inr (h, VBool (v \<noteq> VUndefined)))
                else Inr (h, VBool False))
        else onMatchAtPath fuel parsedPath h object hasCallback False (VBool False) 0)"

text \<open>Modelled from the spec: \<^verbatim>\<open>setAtPath(path, value, root)\<close> is outside
  \<^verbatim>\<open>src/utils.js\<close>; the spec builds it on \<^verbatim>\<open>getDeepClone\<close> with a terminal callback that
  assigns the value at the final key, \<^verbatim>\<open>(ref, key) => { ref[key] = value; }\<close>.\<close>

definition assignCallback :: "jsval \<Rightarrow> callback" where
  "assignCallback v h ref k =
     (case set_prop h ref (toPropertyKey k) v of
        Inl e \<Rightarrow> Inl e
      | Inr h1 \<Rightarrow> Inr (h1, VUndefined))"

definition setAtPath :: "nat \<Rightarrow> key list \<Rightarrow> jsval \<Rightarrow> heap \<Rightarrow> jsval \<Rightarrow> jsval res option" where
  "setAtPath fuel path v h object = getDeepClone fuel path h object (assignCallback v)"

section \<open>Vocabulary of the statements\<close>

subsection \<open>The two modes of \<^verbatim>\<open>onMatchAtPath\<close>\<close>


fun read_walk :: "callback \<Rightarrow> jsval \<Rightarrow> key list \<Rightarrow> heap \<Rightarrow> jsval \<Rightarrow> jsval res" where
  "read_walk cb nm [] h object = Inl NotModelled"
| "read_walk cb nm [k] h object = (if truthy object then cb h object k else Inr (h, nm))"
| "read_walk cb nm (k # k' # ks) h object =
     (if truthy object \<and> truthy (read_prop h object (toPropertyKey k))
      then read_walk cb nm (k' # ks) h (read_prop h object (toPropertyKey k))
      else Inr (h, nm))"

subsection \<open>Objects, clones and heaps\<close>

text \<open>An assignment to \<^verbatim>\<open>length\<close> of an array is the one write that can fail.\<close>

definition is_arr :: "obj \<Rightarrow> bool" where
  "is_arr ob = (case ob of Arr xs ps \<Rightarrow> True | Obj p ps \<Rightarrow> False)"

definition lengthWrite :: "obj \<Rightarrow> pname \<Rightarrow> bool" where
  "lengthWrite ob q = (is_arr ob \<and> q = PName ''length'')"


text \<open>The object \<^verbatim>\<open>getShallowClone\<close> allocates for an object of the heap (lemma
  \<open>getShallowClone_ref\<close>), the properties the clone keeps, and the empty child
  \<^verbatim>\<open>getNewEmptyChild\<close> allocates for a key.\<close>

definition clone_obj :: "obj \<Rightarrow> obj" where
  "clone_obj ob =
     (case ob of
        Arr xs ps \<Rightarrow> Arr xs []
      | Obj p ps \<Rightarrow>
          (case p of
             ObjectProto \<Rightarrow> Obj ObjectProto ps
           | NullProto \<Rightarrow> Obj NullProto (copy_props ps)
           | UserProto n \<Rightarrow> Obj (UserProto n) (copy_props ps)
           | _ \<Rightarrow> Obj ObjectProto []))"


definition empty_for :: "key \<Rightarrow> obj" where
  "empty_for k = (if isNumberKey k then Arr [] [] else Obj ObjectProto [])"

text \<open>The object \<^verbatim>\<open>getDeepClone\<close> allocates first: the clone of the root, or an empty
  container for the first key.\<close>

definition top_obj :: "heap \<Rightarrow> jsval \<Rightarrow> key \<Rightarrow> obj" where
  "top_obj h object k =
     (if isCloneable h object then (case object of VRef a \<Rightarrow> clone_obj (h ! a) | _ \<Rightarrow> empty_for k)
      else empty_for k)"

text \<open>A value of a heap: a primitive, or a reference to one of its objects.\<close>

definition valid_val :: "heap \<Rightarrow> jsval \<Rightarrow> bool" where
  "valid_val h v = (case v of VRef a \<Rightarrow> a < length h | _ \<Rightarrow> True)"

text \<open>A heap extends another when it keeps every object of it. Two heaps agree from an
  address on when the objects allocated from there on are the same in both. A clone is
  being built at an address when the heap extends the first one and the address, new for
  the first heap, holds an object that is not an array.\<close>

definition extends :: "heap \<Rightarrow> heap \<Rightarrow> bool" where
  "extends h h' = (length h \<le> length h' \<and> (\<forall>x<length h. h' ! x = h ! x))"


definition building :: "heap \<Rightarrow> addr \<Rightarrow> heap \<Rightarrow> bool" where
  "building h c hc = (extends h hc \<and> length h \<le> c \<and> c < length hc \<and> \<not> is_arr (hc ! c))"

subsection \<open>What a path reads\<close>

text \<open>The value a path leads to when every step is a plain property read (a read from
  \<^verbatim>\<open>undefined\<close> or \<^verbatim>\<open>null\<close> counted as \<^verbatim>\<open>undefined\<close>), and the values the keys of a
  path are applied to: the root, then every intermediate value.\<close>

fun value_at :: "heap \<Rightarrow> jsval \<Rightarrow> key list \<Rightarrow> jsval" where
  "value_at h v [] = v"
| "value_at h v (k # ks) = value_at h (read_prop h v (toPropertyKey k)) ks"

fun containers :: "heap \<Rightarrow> jsval \<Rightarrow> key list \<Rightarrow> jsval list" where
  "containers h v [] = []"
| "containers h v [k] = [v]"
| "containers h v (k # k' # ks) = v # containers h (read_prop h v (toPropertyKey k)) (k' # ks)"


subsection \<open>What a write keeps\<close>


subsection \<open>Merging\<close>


text \<open>The callback of the outer \<^verbatim>\<open>reduce\<close> of \<^verbatim>\<open>getDeeplyMergedObject\<close>, named: the
  lemma \<open>merge_mapping_unfold\<close> shows that the function runs it over the keys of
  \<^verbatim>\<open>object2\<close>.\<close>

definition mergeKey :: "nat \<Rightarrow> jsval \<Rightarrow> jsval \<Rightarrow> jsval \<Rightarrow> heap \<Rightarrow> pname \<Rightarrow> (error + heap) option" where
  "mergeKey fuel object1 object2 clone h q =
     (case get_prop h object2 q of
        Inl e \<Rightarrow> Some (Inl e)
      | Inr v2 \<Rightarrow>
          if isCloneable h v2 then
            (case get_prop h object1 q of
               Inl e \<Rightarrow> Some (Inl e)
             | Inr v1 \<Rightarrow>
                 (case getDeeplyMergedObject fuel h v1 v2 of
                    None \<Rightarrow> None
                  | Some (Inl e) \<Rightarrow> Some (Inl e)
                  | Some (Inr (h2, m)) \<Rightarrow> Some (set_prop h2 clone q m)))
          else Some (set_prop h clone q v2))"

text \<open>A value of the atomic kinds: a reference to an object of the heap that is a
  \<^verbatim>\<open>Date\<close>, a \<^verbatim>\<open>RegExp\<close>, or tagged as a React element by its \<^verbatim>\<open>$$typeof\<close>.\<close>

definition atomic :: "heap \<Rightarrow> jsval \<Rightarrow> bool" where
  "atomic h v =
     (case v of
        VRef a \<Rightarrow>
          a < length h \<and>
          (instanceofDate h v \<or> instanceofRegExp h v
           \<or> read_prop h v (PName ''$$typeof'') = REACT_ELEMENT_TYPE)
      | _ \<Rightarrow> False)"

subsection \<open>The trees of the examples\<close>



definition heap_x123 :: heap where
  "heap_x123 = [Obj ObjectProto [(PName ''x'', VRef 1)], Arr [VNum 1, VNum 2, VNum 3] []]"

definition heap_a_empty_string :: heap where
  "heap_a_empty_string = [Obj ObjectProto [(PName ''a'', VStr '''')]]"






definition heap_a1_12 :: heap where
  "heap_a1_12 = [Obj ObjectProto [(PName ''a'', VNum 1)], Arr [VNum 1, VNum 2] []]"

definition heap_empty_ax1 :: heap where
  "heap_empty_ax1 =
     [Obj ObjectProto [],
      Obj ObjectProto [(PName ''a'', VRef 2)],
      Obj ObjectProto [(PName ''x'', VNum 1)]]"

definition heap_date :: heap where
  "heap_date =
     [Obj ObjectProto [(PName ''a'', VRef 2)],
      Obj ObjectProto [(PName ''a'', VRef 3)],
      Obj ObjectProto [(PName ''x'', VNum 1)],
      Obj DateProto []]"


section \<open>Lemmas\<close>

subsection \<open>The recursion of \<^verbatim>\<open>onMatchAtPath\<close> on the keys that remain\<close>

lemma drop_two:
  "Suc index < length path \<Longrightarrow>
     drop index path = path ! index # path ! Suc index # drop (Suc (Suc index)) path"
  by (simp add: Cons_nth_drop_Suc Suc_lessD)

lemma drop_last_one: "Suc index = length path \<Longrightarrow> drop index path = [path ! index]"
  by (metis Cons_nth_drop_Suc drop_all lessI order_refl)


lemma onMatchAtPath_read:
  "index < length path \<Longrightarrow> length path - index \<le> fuel \<Longrightarrow>
   onMatchAtPath fuel path h object cb False nm index
     = Some (read_walk cb nm (drop index path) h object)"
proof (induction fuel arbitrary: index h object)
  case 0
  then show ?case by simp
next
  case (Suc fuel)
  show ?case
  proof (cases "Suc index = length path")
    case True
    then show ?thesis
      using Suc.prems
      by (simp add: drop_last_one path_at_def split: sum.splits prod.splits)
  next
    case False
    with Suc.prems have lt: "Suc index < length path" by simp
    have fu: "length path - Suc index \<le> fuel" using Suc.prems by simp
    have ih: "\<And>h object. onMatchAtPath fuel path h object cb False nm (Suc index)
        = Some (read_walk cb nm (drop (Suc index) path) h object)"
      using Suc.IH [OF lt fu] .
    have d: "drop (Suc index) path = path ! Suc index # drop (Suc (Suc index)) path"
      using lt by (simp add: Cons_nth_drop_Suc)
    show ?thesis
      using False lt Suc.prems(1)
      by (simp add: drop_two ih d Let_def path_at_def)
  qed
qed


subsection \<open>Properties, clones and new children\<close>

lemma getShallowClone_ref:
  "getShallowClone h (VRef a) = Inr (h @ [clone_obj (h ! a)], VRef (length h))"
  by (cases "h ! a")
     (auto simp: getShallowClone_def isArray_def constructorOf_def alloc_def clone_obj_def
        elems_of_def props_of_def proto_of_def split: proto.splits)




lemma is_arr_clone_obj: "is_arr (clone_obj ob) = is_arr ob"
  by (cases ob) (auto simp: clone_obj_def is_arr_def split: proto.splits)

lemma isArray_ref: "isArray h (VRef a) = is_arr (h ! a)"
  by (simp add: isArray_def is_arr_def)

lemma isCloneable_ref: "isCloneable h v \<Longrightarrow> \<exists>a. v = VRef a"
  by (cases v) (auto simp: isCloneable_def truthy_def typeofObject_def)

lemma own_set_ok: "\<not> lengthWrite ob q \<Longrightarrow> \<exists>ob'. own_set ob q v = Inr ob'"
  by (cases ob) (auto simp: own_set_def lengthWrite_def is_arr_def split: pname.splits)

lemma is_arr_own_set: "own_set ob q v = Inr ob' \<Longrightarrow> is_arr ob' = is_arr ob"
  by (cases ob) (auto simp: own_set_def is_arr_def split: pname.splits if_splits sum.splits)

lemma alist_get_update: "alist_get (AList.update q v ps) q' = (if q' = q then v else alist_get ps q')"
  by (simp add: alist_get_def update_conv')

lemma set_elem_nth_same: "elem_at (set_elem xs n v) n = v"
  by (auto simp: set_elem_def elem_at_def nth_append)

lemma set_elem_nth_neq: "m \<noteq> n \<Longrightarrow> elem_at (set_elem xs n v) m = elem_at xs m"
  by (auto simp: set_elem_def elem_at_def nth_append nth_Cons')

lemma set_elem_nth_other: "elem_at (set_elem xs n v) m \<noteq> elem_at xs m \<Longrightarrow> m = n"
  using set_elem_nth_neq by blast

lemma own_get_own_set_same:
  "own_set ob q v = Inr ob' \<Longrightarrow> \<not> lengthWrite ob q \<Longrightarrow> own_get ob' q = v"
  by (cases ob)
     (auto simp: own_set_def own_get_def lengthWrite_def is_arr_def alist_get_update set_elem_nth_same
        split: pname.splits if_splits)

lemma own_get_own_set_other:
  "own_set ob q v = Inr ob' \<Longrightarrow> \<not> lengthWrite ob q \<Longrightarrow> q' \<noteq> q \<Longrightarrow> \<not> lengthWrite ob q'
     \<Longrightarrow> own_get ob' q' = own_get ob q'"
  by (cases ob)
     (auto simp: own_set_def own_get_def lengthWrite_def is_arr_def alist_get_update
        split: pname.splits if_splits dest: set_elem_nth_other)


lemma getNewChildClone_empty:
  "\<not> (isCloneable (h @ [empty_for k]) v \<and> isArray (h @ [empty_for k]) v = isNumberKey k)
     \<Longrightarrow> getNewChildClone h v k = Inr (h @ [empty_for k], VRef (length h))"
  by (auto simp: getNewChildClone_def getNewEmptyChild_def alloc_def empty_for_def isArray_def)

lemma getNewChildClone_clone:
  "isCloneable (h @ [empty_for k]) (VRef a) \<Longrightarrow> isArray (h @ [empty_for k]) (VRef a) = isNumberKey k
     \<Longrightarrow> getNewChildClone h (VRef a) k
           = Inr (h @ [empty_for k, clone_obj ((h @ [empty_for k]) ! a)], VRef (Suc (length h)))"
  by (auto simp: getNewChildClone_def getNewEmptyChild_def alloc_def empty_for_def isArray_def
        cloneIfPossible_def getShallowClone_ref)

lemma getNewChildClone_fresh:
  "\<exists>h1 c. getNewChildClone h v k = Inr (h1, VRef c) \<and> length h < length h1 \<and> length h \<le> c
      \<and> c < length h1 \<and> (\<forall>b<length h. h1 ! b = h ! b) \<and> is_arr (h1 ! c) = isNumberKey k"
proof (cases "isCloneable (h @ [empty_for k]) v \<and> isArray (h @ [empty_for k]) v = isNumberKey k")
  case False
  then show ?thesis
    using getNewChildClone_empty [of h k v]
    by (auto simp: nth_append empty_for_def is_arr_def)
next
  case True
  then obtain a where v: "v = VRef a" using isCloneable_ref by blast
  show ?thesis
    using True getNewChildClone_clone [of h k a] unfolding v
    by (auto simp: nth_append is_arr_clone_obj isArray_ref nth_Cons')
qed


subsection \<open>Writing along a path\<close>




text \<open>Past the end of a path the write mode never meets the terminal test, and the call
  does not return; so it is with the empty path, which the data model of the spec
  excludes.\<close>

lemma onMatchAtPath_past_end:
  "length path \<le> index \<Longrightarrow> onMatchAtPath fuel path h (VRef a) cb True nm index = None"
proof (induction fuel arbitrary: h a index)
  case 0
  then show ?case by simp
next
  case (Suc fuel)
  obtain h1 c where g: "getNewChildClone h (read_prop h (VRef a) (toPropertyKey (path_at path index)))
        (path_at path (Suc index)) = Inr (h1, VRef c)"
    using getNewChildClone_fresh by blast
  have "onMatchAtPath fuel path h1 (VRef c) cb True nm (Suc index) = None"
    using Suc.IH [of "Suc index"] Suc.prems by simp
  then show ?case
    using Suc.prems g by (simp add: get_prop_def isNullish_def)
qed

lemma topLevelClone:
  "(if isCloneable h object then getShallowClone h object
    else Inr (getNewEmptyChild h k)) = Inr (h @ [top_obj h object k], VRef (length h))"
proof (cases "isCloneable h object")
  case True
  then obtain a where "object = VRef a" using isCloneable_ref by blast
  with True show ?thesis by (simp add: getShallowClone_ref top_obj_def)
next
  case False
  then show ?thesis by (simp add: getNewEmptyChild_def alloc_def top_obj_def empty_for_def)
qed


lemma getDeepClone_empty_path: "getDeepClone fuel [] h object cb = None"
  by (simp add: getDeepClone_def getParsedPath_def topLevelClone onMatchAtPath_past_end)

lemma getNestedProperty_walk:
  assumes "path \<noteq> []" and "length path \<le> fuel"
  shows "getNestedProperty fuel path h object = Some (read_walk getCallback VUndefined path h object)"
proof (cases "length path = 1")
  case True
  then obtain k where p: "path = [k]" by (cases path) auto
  show ?thesis by (simp add: p getNestedProperty_def getParsedPath_def path_at_def)
next
  case False
  then show ?thesis
    using onMatchAtPath_read [of 0 path fuel h object getCallback VUndefined] assms
    by (simp add: getNestedProperty_def getParsedPath_def)
qed

lemma hasNestedProperty_walk:
  assumes "path \<noteq> []" and "length path \<le> fuel"
  shows "hasNestedProperty fuel path h object = Some (read_walk hasCallback (VBool False) path h object)"
proof (cases "length path = 1")
  case True
  then obtain k where p: "path = [k]" by (cases path) auto
  show ?thesis by (simp add: p hasNestedProperty_def getParsedPath_def path_at_def hasCallback_def)
next
  case False
  then show ?thesis
    using onMatchAtPath_read [of 0 path fuel h object hasCallback "VBool False"] assms
    by (simp add: hasNestedProperty_def getParsedPath_def)
qed




subsection \<open>Reading along a path\<close>

lemma truthy_not_nullish: "truthy v \<Longrightarrow> \<not> isNullish v"
  by (auto simp: truthy_def isNullish_def)

lemma containers_head: "list_all truthy (containers h v (k # ks)) \<Longrightarrow> truthy v"
  by (cases ks) auto

lemma read_walk_get:
  "ks \<noteq> [] \<Longrightarrow> read_walk getCallback VUndefined ks h v
     = Inr (h, if list_all truthy (containers h v ks) then value_at h v ks else VUndefined)"
  by (induction h v ks rule: containers.induct)
     (auto simp: getCallback_def get_prop_def truthy_not_nullish dest: containers_head)

lemma read_walk_has:
  "ks \<noteq> [] \<Longrightarrow> read_walk hasCallback (VBool False) ks h v
     = Inr (h, VBool (list_all truthy (containers h v ks) \<and> value_at h v ks \<noteq> VUndefined))"
  by (induction h v ks rule: containers.induct)
     (auto simp: hasCallback_def get_prop_def truthy_not_nullish dest: containers_head)

subsection \<open>Merging\<close>

lemma isCloneable_cong: "h1 ! a = h2 ! a \<Longrightarrow> isCloneable h1 (VRef a) = isCloneable h2 (VRef a)"
  by (simp add: isCloneable_def instanceofDate_def instanceofRegExp_def read_prop_def)


lemma cloneIfPossible_cases:
  "cloneIfPossible h x =
     (if isCloneable h x then Inr (h @ [clone_obj (h ! (case x of VRef a \<Rightarrow> a | _ \<Rightarrow> 0))], VRef (length h))
      else Inr (h, x))"
proof (cases "isCloneable h x")
  case True
  then obtain a where "x = VRef a" using isCloneable_ref by blast
  with True show ?thesis by (simp add: cloneIfPossible_def getShallowClone_ref)
next
  case False
  then show ?thesis by (simp add: cloneIfPossible_def)
qed


lemma extends_refl: "extends h h" by (simp add: extends_def)
lemma extends_trans: "extends h h1 \<Longrightarrow> extends h1 h2 \<Longrightarrow> extends h h2" by (auto simp: extends_def)
lemma extends_append: "extends h (h @ e)" by (simp add: extends_def nth_append)
lemma extends_update: "length h \<le> c \<Longrightarrow> extends h h1 \<Longrightarrow> extends h (h1[c := ob])"
  by (auto simp: extends_def)

lemma merge_mapping_unfold:
  assumes "\<not> isArray h object1" and "\<not> isArray h object2"
    and "object_keys h object2 = Inr keys2" and "object_keys h object1 = Inr keys1"
  shows "getDeeplyMergedObject (Suc fuel) h object1 object2 =
     (case reduce_res (copyClonedKey object1 (VRef (length h))) keys1 (h @ [Obj ObjectProto []]) of
        None \<Rightarrow> None
      | Some (Inl e) \<Rightarrow> Some (Inl e)
      | Some (Inr h1) \<Rightarrow>
          (case reduce_res (mergeKey fuel object1 object2 (VRef (length h))) keys2 h1 of
             None \<Rightarrow> None
           | Some (Inl e) \<Rightarrow> Some (Inl e)
           | Some (Inr h2) \<Rightarrow> Some (Inr (h2, VRef (length h)))))"
proof -
  have e: "mergeKey fuel object1 object2 clone = (\<lambda>h q.
          (case get_prop h object2 q of
             Inl e \<Rightarrow> Some (Inl e)
           | Inr v2 \<Rightarrow>
               if isCloneable h v2 then
                 (case get_prop h object1 q of
                    Inl e \<Rightarrow> Some (Inl e)
                  | Inr v1 \<Rightarrow>
                      (case getDeeplyMergedObject fuel h v1 v2 of
                         None \<Rightarrow> None
                       | Some (Inl e) \<Rightarrow> Some (Inl e)
                       | Some (Inr (h2, m)) \<Rightarrow> Some (set_prop h2 clone q m)))
               else Some (set_prop h clone q v2)))" for clone
    by (intro ext) (simp add: mergeKey_def)
  show ?thesis using assms by (simp add: alloc_def e cong: option.case_cong sum.case_cong)
qed

lemma reduce_res_inv:
  assumes "reduce_res f qs h = Some (Inr h')" and "I h"
    and "\<And>h q h1. I h \<Longrightarrow> f h q = Some (Inr h1) \<Longrightarrow> I h1"
  shows "I h'"
  using assms(1,2)
proof (induction qs arbitrary: h)
  case Nil
  then show ?case by simp
next
  case (Cons q qs)
  then show ?case
    by (auto split: option.splits sum.splits dest: assms(3))
qed

lemma reduce_res_last_write:
  assumes "reduce_res f qs h = Some (Inr h')" and "I h" and "P h \<or> k \<in> set qs"
    and stepk: "\<And>h h1. I h \<Longrightarrow> f h k = Some (Inr h1) \<Longrightarrow> I h1 \<and> P h1"
    and step: "\<And>h q h1. I h \<Longrightarrow> f h q = Some (Inr h1) \<Longrightarrow> I h1 \<and> (P h \<longrightarrow> P h1)"
  shows "P h'"
  using assms(1,2,3)
proof (induction qs arbitrary: h)
  case Nil
  then show ?case by simp
next
  case (Cons q qs)
  from Cons.prems(1) obtain h1 where f: "f h q = Some (Inr h1)"
    and r: "reduce_res f qs h1 = Some (Inr h')"
    by (auto split: option.splits sum.splits)
  have i1: "I h1" using step [OF Cons.prems(2) f] by simp
  have "P h1 \<or> k \<in> set qs"
  proof (cases "q = k")
    case True
    then show ?thesis using stepk [OF Cons.prems(2)] f by simp
  next
    case False
    then show ?thesis using Cons.prems(3) step [OF Cons.prems(2) f] by auto
  qed
  then show ?case using Cons.IH [OF r i1] by simp
qed

lemma reduce_res_total:
  assumes "I h"
    and "\<And>h q. I h \<Longrightarrow> q \<in> set qs \<Longrightarrow> \<exists>h1. f h q = Some (Inr h1) \<and> I h1"
  shows "\<exists>h'. reduce_res f qs h = Some (Inr h') \<and> I h'"
  using assms
proof (induction qs arbitrary: h)
  case Nil
  then show ?case by simp
next
  case (Cons q qs)
  obtain h1 where f: "f h q = Some (Inr h1)" and i1: "I h1"
    using Cons.prems(2) [OF Cons.prems(1), of q] by auto
  have "\<exists>h'. reduce_res f qs h1 = Some (Inr h') \<and> I h'"
    using Cons.IH [OF i1] Cons.prems(2) by simp
  then show ?case using f by simp
qed

lemma cloneIfPossible_extends: "cloneIfPossible h x = Inr (h1, y) \<Longrightarrow> extends h h1"
  by (auto simp: cloneIfPossible_cases extends_refl extends_append split: if_splits)

lemma cloneIfPossible_total: "\<exists>h1 y. cloneIfPossible h x = Inr (h1, y)"
  by (simp add: cloneIfPossible_cases)

lemma map_res_cloneIfPossible_extends:
  "map_res cloneIfPossible xs h = Inr (h1, ys) \<Longrightarrow> extends h h1"
proof (induction xs arbitrary: h ys)
  case Nil
  then show ?case by (simp add: extends_refl)
next
  case (Cons x xs)
  then show ?case
    by (auto split: sum.splits prod.splits dest!: cloneIfPossible_extends intro: extends_trans)
qed

lemma set_prop_building:
  assumes "building h c hc" and "set_prop hc (VRef c) q x = Inr h1"
  shows "building h c h1 \<and> own_get (h1 ! c) q = x
      \<and> (\<forall>q'. q' \<noteq> q \<longrightarrow> own_get (h1 ! c) q' = own_get (hc ! c) q')"
proof -
  obtain ob where ob: "own_set (hc ! c) q x = Inr ob" and h1: "h1 = hc[c := ob]"
    using assms(2) by (auto simp: set_prop_def split: sum.splits)
  have nl: "\<not> lengthWrite (hc ! c) q'" for q'
    using assms(1) by (simp add: building_def lengthWrite_def)
  have c: "c < length hc" using assms(1) by (simp add: building_def)
  have "building h c h1"
    using assms(1) is_arr_own_set [OF ob] c
    by (auto simp: building_def h1 intro: extends_update)
  moreover have "own_get (h1 ! c) q = x"
    using own_get_own_set_same [OF ob nl] c by (simp add: h1)
  moreover have "\<forall>q'. q' \<noteq> q \<longrightarrow> own_get (h1 ! c) q' = own_get (hc ! c) q'"
    using own_get_own_set_other [OF ob nl _ nl] c by (simp add: h1)
  ultimately show ?thesis by simp
qed

lemma set_prop_building_total:
  assumes "building h c hc"
  shows "\<exists>h1. set_prop hc (VRef c) q x = Inr h1"
proof -
  have "\<not> lengthWrite (hc ! c) q" using assms by (simp add: building_def lengthWrite_def)
  from own_set_ok [OF this, of x] show ?thesis by (auto simp: set_prop_def)
qed

lemma building_extends: "building h c hc \<Longrightarrow> extends hc h1 \<Longrightarrow> building h c h1"
  by (auto simp: building_def extends_def)

lemma copyClonedKey_building:
  assumes "building h c hc" and "copyClonedKey object1 (VRef c) hc q = Some (Inr h1)"
  shows "building h c h1"
proof -
  obtain v hm y where cl: "cloneIfPossible hc v = Inr (hm, y)"
    and sp: "set_prop hm (VRef c) q y = Inr h1"
    using assms(2) by (auto simp: copyClonedKey_def split: sum.splits prod.splits)
  have "building h c hm"
    using building_extends [OF assms(1) cloneIfPossible_extends [OF cl]] .
  then show ?thesis using set_prop_building sp by blast
qed

lemma merge_frame:
  "getDeeplyMergedObject fuel h object1 object2 = Some (Inr (h', r)) \<Longrightarrow> extends h h'"
proof (induction fuel arbitrary: h object1 object2 h' r)
  case 0
  then show ?case by simp
next
  case (Suc fuel)
  show ?case
  proof (cases "isArray h object1 \<noteq> isArray h object2")
    case True
    then show ?thesis using Suc.prems by (auto dest: cloneIfPossible_extends)
  next
    case False
    note same = this
    show ?thesis
    proof (cases "isArray h object1")
      case True
      then show ?thesis
        using Suc.prems same
        by (auto simp: alloc_def split: sum.splits prod.splits
              dest!: map_res_cloneIfPossible_extends intro: extends_trans extends_append)
    next
      case False
      with same have na: "\<not> isArray h object1" "\<not> isArray h object2" by simp_all
      obtain keys2 where k2: "object_keys h object2 = Inr keys2"
        using Suc.prems na by (auto split: sum.splits)
      obtain keys1 where k1: "object_keys h object1 = Inr keys1"
        using Suc.prems na k2 by (auto split: sum.splits)
      let ?c = "length h"
      obtain h1 where r1: "reduce_res (copyClonedKey object1 (VRef ?c)) keys1 (h @ [Obj ObjectProto []]) = Some (Inr h1)"
        and r2: "reduce_res (mergeKey fuel object1 object2 (VRef ?c)) keys2 h1 = Some (Inr h')"
        using Suc.prems unfolding merge_mapping_unfold [OF na k2 k1]
        by (auto split: option.splits sum.splits)
      have b0: "building h ?c (h @ [Obj ObjectProto []])"
        by (simp add: building_def extends_append is_arr_def)
      have b1: "building h ?c h1"
        using reduce_res_inv [OF r1, of "building h ?c"] b0 copyClonedKey_building by blast
      have step: "building h ?c hb"
        if b: "building h ?c ha" and m: "mergeKey fuel object1 object2 (VRef ?c) ha q = Some (Inr hb)"
        for ha q hb
      proof -
        from m consider (rec) v1 v2 hm mm where "getDeeplyMergedObject fuel ha v1 v2 = Some (Inr (hm, mm))"
            "set_prop hm (VRef ?c) q mm = Inr hb"
          | (plain) v2 where "set_prop ha (VRef ?c) q v2 = Inr hb"
          by (auto simp: mergeKey_def split: sum.splits if_splits option.splits prod.splits)
        then show ?thesis
        proof cases
          case rec
          have "building h ?c hm" using building_extends [OF b Suc.IH [OF rec(1)]] .
          then show ?thesis using set_prop_building rec(2) by blast
        next
          case plain
          then show ?thesis using set_prop_building b by blast
        qed
      qed
      have "building h ?c h'"
        using reduce_res_inv [OF r2, of "building h ?c"] b1 step by blast
      then show ?thesis by (simp add: building_def)
    qed
  qed
qed


lemma isCloneable_extends:
  "valid_val h x \<Longrightarrow> extends h h1 \<Longrightarrow> isCloneable h1 x = isCloneable h x"
proof (cases x)
  case (VRef a)
  assume "valid_val h x" and "extends h h1"
  then have "h1 ! a = h ! a" by (simp add: VRef valid_val_def extends_def)
  then show ?thesis unfolding VRef by (rule isCloneable_cong)
qed (simp_all add: isCloneable_def truthy_def typeofObject_def)

lemma atomic_valid: "atomic h v \<Longrightarrow> valid_val h v"
  by (cases v) (auto simp: atomic_def valid_val_def)

lemma atomic_not_cloneable: "atomic h v \<Longrightarrow> \<not> isCloneable h v"
  by (cases v) (auto simp: atomic_def isCloneable_def)

lemma read_prop_obj: "h ! a = Obj p ps \<Longrightarrow> read_prop h (VRef a) q = alist_get ps q"
  by (simp add: read_prop_def own_get_def)

lemma object_keys_total: "\<not> isNullish v \<Longrightarrow> \<exists>ks. object_keys h v = Inr ks"
  by (cases v) (auto simp: object_keys_def isNullish_def split: obj.splits)

lemma mergeKey_building:
  assumes b: "building h c ha" and m: "mergeKey fuel object1 object2 (VRef c) ha q = Some (Inr hb)"
  shows "building h c hb \<and> (\<forall>q'. q' \<noteq> q \<longrightarrow> own_get (hb ! c) q' = own_get (ha ! c) q')"
proof -
  from m consider (rec) v1 v2 hm mm where "getDeeplyMergedObject fuel ha v1 v2 = Some (Inr (hm, mm))"
      "set_prop hm (VRef c) q mm = Inr hb"
    | (plain) v2 where "set_prop ha (VRef c) q v2 = Inr hb"
    by (auto simp: mergeKey_def split: sum.splits if_splits option.splits prod.splits)
  then show ?thesis
  proof cases
    case rec
    have e: "extends ha hm" using merge_frame [OF rec(1)] .
    have bm: "building h c hm" using building_extends [OF b e] .
    have "hm ! c = ha ! c" using e b by (simp add: extends_def building_def)
    then show ?thesis using set_prop_building [OF bm rec(2)] by simp
  next
    case plain
    then show ?thesis using set_prop_building [OF b] by blast
  qed
qed

lemma merge_overwrite:
  assumes at: "atomic h v" and o: "oa < length h" "h ! oa = Obj p ps"
    and k: "map_of ps k = Some v" and nb: "\<not> isArray h base"
    and m: "getDeeplyMergedObject fuel h base (VRef oa) = Some (Inr (h', r))"
  shows "read_prop h' r k = v"
proof -
  obtain n where f: "fuel = Suc n" using m by (cases fuel) auto
  have no: "\<not> isArray h (VRef oa)" using o by (simp add: isArray_def)
  have k2: "object_keys h (VRef oa) = Inr (map fst ps)" using o by (simp add: object_keys_def)
  obtain keys1 where k1: "object_keys h base = Inr keys1"
    using m nb no k2 unfolding f by (auto split: sum.splits)
  let ?c = "length h"
  obtain h1 where r1: "reduce_res (copyClonedKey base (VRef ?c)) keys1 (h @ [Obj ObjectProto []]) = Some (Inr h1)"
    and r2: "reduce_res (mergeKey n base (VRef oa) (VRef ?c)) (map fst ps) h1 = Some (Inr h')"
    and r: "r = VRef ?c"
    using m unfolding f merge_mapping_unfold [OF nb no k2 k1]
    by (auto split: option.splits sum.splits)
  have b0: "building h ?c (h @ [Obj ObjectProto []])"
    by (simp add: building_def extends_append is_arr_def)
  have b1: "building h ?c h1"
    using reduce_res_inv [OF r1, of "building h ?c"] b0 copyClonedKey_building by blast
  have kin: "k \<in> set (map fst ps)" using k by (auto dest: map_of_SomeD intro: rev_image_eqI)
  have stepk: "building h ?c hb \<and> own_get (hb ! ?c) k = v"
    if b: "building h ?c ha" and mk: "mergeKey n base (VRef oa) (VRef ?c) ha k = Some (Inr hb)"
    for ha hb
  proof -
    have e: "extends h ha" using b by (simp add: building_def)
    have "ha ! oa = Obj p ps" using e o by (simp add: extends_def)
    then have g: "get_prop ha (VRef oa) k = Inr v"
      using k by (simp add: get_prop_def isNullish_def read_prop_obj alist_get_def)
    have "\<not> isCloneable ha v"
      using isCloneable_extends [OF atomic_valid [OF at] e] atomic_not_cloneable [OF at] by simp
    then have "set_prop ha (VRef ?c) k v = Inr hb"
      using mk g by (simp add: mergeKey_def)
    then show ?thesis using set_prop_building [OF b] by blast
  qed
  have step: "building h ?c hb \<and> (own_get (ha ! ?c) k = v \<longrightarrow> own_get (hb ! ?c) k = v)"
    if b: "building h ?c ha" and mk: "mergeKey n base (VRef oa) (VRef ?c) ha q = Some (Inr hb)"
    for ha q hb
  proof (cases "q = k")
    case True
    then show ?thesis using stepk [OF b] mk by simp
  next
    case False
    then show ?thesis using mergeKey_building [OF b mk] by auto
  qed
  have "own_get (h' ! ?c) k = v"
    using reduce_res_last_write [OF r2, of "building h ?c" "\<lambda>hc. own_get (hc ! ?c) k = v" k]
      b1 kin stepk step by blast
  then show ?thesis by (simp add: r read_prop_def)
qed

lemma merge_flat_total:
  assumes "0 < fuel" and o: "oa < length h" "h ! oa = Obj p ps"
    and nb: "\<not> isArray h base" and nn: "\<not> isNullish base"
    and flat: "list_all (\<lambda>(q, x). valid_val h x \<and> \<not> isCloneable h x) ps"
  shows "\<exists>h' r. getDeeplyMergedObject fuel h base (VRef oa) = Some (Inr (h', r))"
proof -
  obtain n where f: "fuel = Suc n" using assms(1) by (cases fuel) auto
  have no: "\<not> isArray h (VRef oa)" using o by (simp add: isArray_def)
  have k2: "object_keys h (VRef oa) = Inr (map fst ps)" using o by (simp add: object_keys_def)
  obtain keys1 where k1: "object_keys h base = Inr keys1"
    using object_keys_total [OF nn] by blast
  let ?c = "length h"
  have b0: "building h ?c (h @ [Obj ObjectProto []])"
    by (simp add: building_def extends_append is_arr_def)
  have s1: "\<exists>hb. copyClonedKey base (VRef ?c) ha q = Some (Inr hb) \<and> building h ?c hb"
    if b: "building h ?c ha" for ha q
  proof -
    obtain hm y where cl: "cloneIfPossible ha (read_prop ha base q) = Inr (hm, y)"
      using cloneIfPossible_total by blast
    have bm: "building h ?c hm"
      using building_extends [OF b cloneIfPossible_extends [OF cl]] .
    obtain hb where sp: "set_prop hm (VRef ?c) q y = Inr hb"
      using set_prop_building_total [OF bm] by blast
    have "copyClonedKey base (VRef ?c) ha q = Some (Inr hb)"
      using nn cl sp by (simp add: copyClonedKey_def get_prop_def)
    then show ?thesis using set_prop_building [OF bm sp] by simp
  qed
  obtain h1 where r1: "reduce_res (copyClonedKey base (VRef ?c)) keys1 (h @ [Obj ObjectProto []]) = Some (Inr h1)"
    and b1: "building h ?c h1"
    using reduce_res_total [where I = "building h ?c" and f = "copyClonedKey base (VRef ?c)"
        and qs = keys1 and h = "h @ [Obj ObjectProto []]"] b0 s1 by blast
  have s2: "\<exists>hb. mergeKey n base (VRef oa) (VRef ?c) ha q = Some (Inr hb) \<and> building h ?c hb"
    if b: "building h ?c ha" and q: "q \<in> set (map fst ps)" for ha q
  proof -
    have e: "extends h ha" using b by (simp add: building_def)
    have ho: "ha ! oa = Obj p ps" using e o by (simp add: extends_def)
    obtain x where x: "map_of ps q = Some x"
      using q by (cases "map_of ps q") (auto simp: map_of_eq_None_iff)
    then have "(q, x) \<in> set ps" by (rule map_of_SomeD)
    then have vx: "valid_val h x" and ncx: "\<not> isCloneable h x"
      using flat by (auto simp: list_all_iff)
    have g: "get_prop ha (VRef oa) q = Inr x"
      using x ho by (simp add: get_prop_def isNullish_def read_prop_obj alist_get_def)
    have nc: "\<not> isCloneable ha x" using isCloneable_extends [OF vx e] ncx by simp
    obtain hb where sp: "set_prop ha (VRef ?c) q x = Inr hb"
      using set_prop_building_total [OF b] by blast
    have "mergeKey n base (VRef oa) (VRef ?c) ha q = Some (Inr hb)"
      using g nc sp by (simp add: mergeKey_def)
    then show ?thesis using set_prop_building [OF b sp] by simp
  qed
  obtain h2 where r2: "reduce_res (mergeKey n base (VRef oa) (VRef ?c)) (map fst ps) h1 = Some (Inr h2)"
    using reduce_res_total [where I = "building h ?c" and f = "mergeKey n base (VRef oa) (VRef ?c)"
        and qs = "map fst ps" and h = h1] b1 s2 by blast
  show ?thesis
    unfolding f merge_mapping_unfold [OF nb no k2 k1] using r1 r2 by simp
qed

subsection \<open>What a write shares\<close>






subsection \<open>Evaluation\<close>

text \<open>The definitions that evaluate the model on a concrete heap.\<close>

lemmas js_defs =
  setAtPath_def getDeepClone_def getParsedPath_def isCloneable_def truthy_def typeofObject_def
  instanceofDate_def instanceofRegExp_def read_prop_def own_get_def alist_get_def elem_at_def
  REACT_ELEMENT_TYPE_def getShallowClone_def isArray_def alloc_def elems_of_def props_of_def
  proto_of_def constructorOf_def copy_props_def path_at_def assignCallback_def set_prop_def
  own_set_def set_elem_def set_length_def toPropertyKey_def canonical_index_def digit_val_def
  isNumberKey_def getNewChildClone_def getNewEmptyChild_def cloneIfPossible_def get_prop_def
  isNullish_def prim_get_def nth_append


section \<open>The claims\<close>

subsection \<open>C1: a write mutates nothing of the original tree\<close>




subsection \<open>C2: what a write shares with the original tree\<close>




subsection \<open>C3: reading back what was written\<close>




subsection \<open>C4: a child of the wrong kind is replaced\<close>

text \<open>
  C4. During a write, an existing child that is cloneable but whose kind disagrees with
  the next key (an array under a string key, another object under a number key) is
  discarded: \<^verbatim>\<open>getNewChildClone\<close> returns a new empty container of the kind of the next key,
  and \<^verbatim>\<open>onMatchAtPath\<close> goes on in that container and assigns it at the key. The witness is
  the example of the claim: \<^verbatim>\<open>setAtPath(['x', 'y'], 1, {x: [1, 2, 3]})\<close> is \<^verbatim>\<open>{x: {y: 1}}\<close>.
\<close>

theorem kind_mismatch_replaces_child:
  assumes "c < length h" and "isCloneable h (VRef c)"
    and "isArray h (VRef c) \<noteq> isNumberKey nextKey"
  shows "getNewChildClone h (VRef c) nextKey
           = Inr (h @ [if isNumberKey nextKey then Arr [] [] else Obj ObjectProto []], VRef (length h))
       \<and> (Suc index < length path \<and> path ! Suc index = nextKey
            \<and> read_prop h (VRef a) (toPropertyKey (path ! index)) = VRef c
          \<longrightarrow> onMatchAtPath (Suc fuel) path h (VRef a) onMatch True noMatchValue index
              = (case onMatchAtPath fuel path
                        (h @ [if isNumberKey nextKey then Arr [] [] else Obj ObjectProto []])
                        (VRef (length h)) onMatch True noMatchValue (Suc index) of
                   None \<Rightarrow> None
                 | Some (Inl e) \<Rightarrow> Some (Inl e)
                 | Some (Inr (h2, r)) \<Rightarrow>
                     (case set_prop h2 (VRef a) (toPropertyKey (path ! index)) r of
                        Inl e \<Rightarrow> Some (Inl e)
                      | Inr h3 \<Rightarrow> Some (Inr (h3, VRef a)))))"
proof -
  let ?e = "if isNumberKey nextKey then Arr [] [] else Obj ObjectProto []"
  have e: "empty_for nextKey = ?e" by (simp add: empty_for_def)
  have "(h @ [empty_for nextKey]) ! c = h ! c" using assms(1) by (simp add: nth_append)
  then have "isArray (h @ [empty_for nextKey]) (VRef c) = isArray h (VRef c)"
    by (simp add: isArray_def)
  then have g: "getNewChildClone h (VRef c) nextKey = Inr (h @ [?e], VRef (length h))"
    using getNewChildClone_empty [of h nextKey "VRef c"] assms(3) by (simp add: e)
  show ?thesis
    using g by (auto simp: path_at_def get_prop_def isNullish_def)
qed

theorem kind_mismatch_replaces_child_witness:
  "getNewChildClone (heap_x123 @ [Obj ObjectProto [(PName ''x'', VRef 1)]]) (VRef 1) (KStr ''y'')
     = Inr (heap_x123 @ [Obj ObjectProto [(PName ''x'', VRef 1)], Obj ObjectProto []], VRef 3)
   \<and> setAtPath 2 [KStr ''x'', KStr ''y''] (VNum 1) heap_x123 (VRef 0)
     = Some (Inr (heap_x123 @ [Obj ObjectProto [(PName ''x'', VRef 3)],
                              Obj ObjectProto [(PName ''y'', VNum 1)]], VRef 2))"
proof -
  let ?h = "heap_x123 @ [Obj ObjectProto [(PName ''x'', VRef 1)]]"
  have 1: "1 < length ?h" by (simp add: heap_x123_def)
  have 2: "isCloneable ?h (VRef 1)" by (simp add: js_defs heap_x123_def)
  have 3: "isArray ?h (VRef 1) \<noteq> isNumberKey (KStr ''y'')" by (simp add: js_defs heap_x123_def)
  have "getNewChildClone ?h (VRef 1) (KStr ''y'') = Inr (?h @ [Obj ObjectProto []], VRef 3)"
    using kind_mismatch_replaces_child [OF 1 2 3] by (simp add: isNumberKey_def heap_x123_def)
  moreover have "setAtPath 2 [KStr ''x'', KStr ''y''] (VNum 1) heap_x123 (VRef 0)
     = Some (Inr (heap_x123 @ [Obj ObjectProto [(PName ''x'', VRef 3)],
                              Obj ObjectProto [(PName ''y'', VNum 1)]], VRef 2))"
    by (simp add: js_defs heap_x123_def numeral_2_eq_2)
  ultimately show ?thesis by simp
qed

subsection \<open>C5: merging under a key the base lacks\<close>

text \<open>
  C5. When the value of the override at a key is cloneable, the merge recurses even if the
  base lacks the key, and completes without raising; \<^verbatim>\<open>merge({}, {a: {x: 1}})\<close> returns
  \<^verbatim>\<open>{a: {x: 1}}\<close>.

  The code does recurse, into \<^verbatim>\<open>getDeeplyMergedObject(undefined, {x: 1})\<close>: neither
  argument is an array, so the call goes on to \<^verbatim>\<open>Object.keys(undefined)\<close>, which raises
  \<^verbatim>\<open>TypeError\<close>.
\<close>

theorem merge_absent_base_key_raises:
  "getDeeplyMergedObject 5 heap_empty_ax1 (VRef 0) (VRef 1) = Some (Inl TypeError)"
  by code_simp

subsection \<open>C6: merging two sequences concatenates them\<close>




subsection \<open>C7: a conflict of kinds is won by the override\<close>

text \<open>
  C7. When the base and the override disagree on being an array, the merge is
  \<^verbatim>\<open>cloneIfPossible(override)\<close>: the override itself when it is not cloneable, and
  otherwise a new reference to its shallow clone, with nothing of the base in it;
  \<^verbatim>\<open>merge({a: 1}, [1, 2])\<close> returns a shallow clone of \<^verbatim>\<open>[1, 2]\<close>.
\<close>

theorem merge_kind_conflict:
  assumes "isArray h base \<noteq> isArray h override" and "0 < fuel"
  shows "getDeeplyMergedObject fuel h base override = Some (cloneIfPossible h override)
       \<and> (\<not> isCloneable h override \<longrightarrow> cloneIfPossible h override = Inr (h, override))
       \<and> (\<forall>a. isCloneable h override \<and> override = VRef a \<longrightarrow>
              cloneIfPossible h override = Inr (h @ [clone_obj (h ! a)], VRef (length h)))"
proof -
  obtain n where f: "fuel = Suc n" using assms(2) by (cases fuel) auto
  have "getDeeplyMergedObject fuel h base override = Some (cloneIfPossible h override)"
    using assms(1) by (simp add: f)
  then show ?thesis by (auto simp: cloneIfPossible_cases)
qed

theorem merge_kind_conflict_witness:
  "getDeeplyMergedObject 1 heap_a1_12 (VRef 0) (VRef 1) = Some (Inr (heap_a1_12 @ [Arr [VNum 1, VNum 2] []], VRef 2))"
proof -
  have "isArray heap_a1_12 (VRef 0) \<noteq> isArray heap_a1_12 (VRef 1)"
    by (simp add: isArray_def heap_a1_12_def)
  from merge_kind_conflict [OF this, of 1]
  have "getDeeplyMergedObject 1 heap_a1_12 (VRef 0) (VRef 1) = Some (cloneIfPossible heap_a1_12 (VRef 1))" by simp
  moreover have "cloneIfPossible heap_a1_12 (VRef 1) = Inr (heap_a1_12 @ [Arr [VNum 1, VNum 2] []], VRef 2)"
    by code_simp
  ultimately show ?thesis by simp
qed

subsection \<open>C8: what \<^verbatim>\<open>hasNestedProperty\<close> answers\<close>




subsection \<open>C9: dates, regular expressions and React elements are atomic\<close>

text \<open>
  C9. For a value that is a \<^verbatim>\<open>Date\<close>, a \<^verbatim>\<open>RegExp\<close> or tagged as a React element:
  \<^verbatim>\<open>isCloneable\<close> is false; \<^verbatim>\<open>cloneIfPossible\<close> returns the value itself and allocates
  nothing; and a merge whose override is a Mapping holding the value at a key overwrites:
  whenever the merge returns, the result holds the very value at that key, whatever the
  base holds there. The merge does return when the base is neither \<^verbatim>\<open>undefined\<close> nor
  \<^verbatim>\<open>null\<close> and no value of the override is cloneable.
\<close>

theorem atomic_values_overwrite:
  assumes "atomic h v"
  shows "\<not> isCloneable h v
       \<and> cloneIfPossible h v = Inr (h, v)
       \<and> (\<forall>h' r. a < length h \<and> h ! a = Obj p ps \<and> map_of ps k = Some v \<and> \<not> isArray h base
              \<and> getDeeplyMergedObject fuel h base (VRef a) = Some (Inr (h', r))
            \<longrightarrow> read_prop h' r k = v)
       \<and> (0 < fuel \<and> a < length h \<and> h ! a = Obj p ps \<and> \<not> isArray h base \<and> \<not> isNullish base
            \<and> list_all (\<lambda>(q, x). valid_val h x \<and> \<not> isCloneable h x) ps
            \<longrightarrow> (\<exists>h' r. getDeeplyMergedObject fuel h base (VRef a) = Some (Inr (h', r))))"
  using assms merge_overwrite [OF assms] merge_flat_total atomic_not_cloneable [OF assms]
  unfolding cloneIfPossible_def by auto

theorem atomic_values_overwrite_witness:
  "\<not> isCloneable heap_date (VRef 3)
   \<and> cloneIfPossible heap_date (VRef 3) = Inr (heap_date, VRef 3)
   \<and> (\<exists>h' r. getDeeplyMergedObject 1 heap_date (VRef 0) (VRef 1) = Some (Inr (h', r))
         \<and> read_prop h' r (PName ''a'') = VRef 3)"
proof -
  have at: "atomic heap_date (VRef 3)" by code_simp
  have o: "1 < length heap_date" "heap_date ! 1 = Obj ObjectProto [(PName ''a'', VRef 3)]"
    by (simp_all add: heap_date_def)
  have k: "map_of [(PName ''a'', VRef 3)] (PName ''a'') = Some (VRef 3)" by simp
  have nb: "\<not> isArray heap_date (VRef 0)" "\<not> isNullish (VRef 0)"
    by (simp_all add: isArray_def heap_date_def isNullish_def)
  have fl: "list_all (\<lambda>(q, x). valid_val heap_date x \<and> \<not> isCloneable heap_date x) [(PName ''a'', VRef 3)]"
    by code_simp
  note t = atomic_values_overwrite [OF at, where a = 1 and p = ObjectProto and ps = "[(PName ''a'', VRef 3)]"
       and k = "PName ''a''" and base = "VRef 0" and fuel = 1]
  from t o nb fl obtain h' r where m: "getDeeplyMergedObject 1 heap_date (VRef 0) (VRef 1) = Some (Inr (h', r))"
    by auto
  from t o k nb m have "read_prop h' r (PName ''a'') = VRef 3" by blast
  with t m show ?thesis by blast
qed

subsection \<open>C10: present means truthy\<close>

text \<open>
  C10. In the read-only operations a value is present when it is truthy: when the root or
  an intermediate value of the path is falsy, \<^verbatim>\<open>getNestedProperty\<close> returns \<^verbatim>\<open>undefined\<close> and
  \<^verbatim>\<open>hasNestedProperty\<close> returns false, also when the falsy value has the terminal property,
  and also on a path of one key. The witness is \<^verbatim>\<open>hasNestedProperty(['a', 'length'], {a: ''})\<close>,
  where \<^verbatim>\<open>''.length\<close> is 0.
\<close>

theorem falsy_on_path_is_absent:
  assumes "path \<noteq> []" and "length path \<le> fuel"
    and "\<exists>x \<in> set (containers h root path). \<not> truthy x"
  shows "getNestedProperty fuel path h root = Some (Inr (h, VUndefined))
       \<and> hasNestedProperty fuel path h root = Some (Inr (h, VBool False))"
  using assms
  by (auto simp: getNestedProperty_walk hasNestedProperty_walk read_walk_get read_walk_has
        list_all_iff)

theorem falsy_on_path_is_absent_witness:
  "getNestedProperty 2 [KStr ''a'', KStr ''length''] heap_a_empty_string (VRef 0)
      = Some (Inr (heap_a_empty_string, VUndefined))
   \<and> hasNestedProperty 2 [KStr ''a'', KStr ''length''] heap_a_empty_string (VRef 0)
      = Some (Inr (heap_a_empty_string, VBool False))
   \<and> read_prop heap_a_empty_string (VStr '''') (toPropertyKey (KStr ''length'')) = VNum 0"
proof -
  have c: "containers heap_a_empty_string (VRef 0) [KStr ''a'', KStr ''length''] = [VRef 0, VStr '''']"
    by code_simp
  have "\<exists>x \<in> set (containers heap_a_empty_string (VRef 0) [KStr ''a'', KStr ''length'']). \<not> truthy x"
    unfolding c by (simp add: truthy_def)
  from falsy_on_path_is_absent [OF _ _ this, of 2] have "getNestedProperty 2 [KStr ''a'', KStr ''length''] heap_a_empty_string (VRef 0)
      = Some (Inr (heap_a_empty_string, VUndefined))
   \<and> hasNestedProperty 2 [KStr ''a'', KStr ''length''] heap_a_empty_string (VRef 0)
      = Some (Inr (heap_a_empty_string, VBool False))" by simp
  moreover have "read_prop heap_a_empty_string (VStr '''') (toPropertyKey (KStr ''length'')) = VNum 0"
    by code_simp
  ultimately show ?thesis by simp
qed

end
